theory Spec2Isabelle
  imports Complex_Main "HOL-Library.Log_Nat" "HOL-Library.Multiset"
begin

section \<open>Data model (types of the tournament bracket)\<close>

text \<open>
  The interfaces \<^verbatim>\<open>Player\<close>, \<^verbatim>\<open>Match\<close> and \<^verbatim>\<open>Bracket\<close>. An optional property of the
  source (\<^verbatim>\<open>seed?\<close>, \<^verbatim>\<open>player1?\<close>, ...) is an \<open>option\<close>, with \<open>None\<close> for an absent or
  \<^verbatim>\<open>undefined\<close> property. The flag \<^verbatim>\<open>isBye\<close> is only ever written by \<^verbatim>\<open>createBye\<close> and only
  ever read for its truthiness, so it is a \<open>bool\<close>, \<open>False\<close> for the absent property of a
  real competitor. The fields \<^verbatim>\<open>id\<close> and \<^verbatim>\<open>round\<close> carry a suffix, since two records
  share the first name and \<open>round\<close> is a constant of HOL. \<^verbatim>\<open>generateBracket\<close> and
  \<^verbatim>\<open>updateBracketWithWinner\<close> build their result as an object literal holding only
  \<^verbatim>\<open>rounds\<close>, so the other properties of a bracket are optional in the model.
\<close>

record player =
  id_player :: string
  name :: string
  seed :: "int option"
  poolId :: "string option"
  isBye :: bool

record match =
  id_match :: string
  round_match :: nat
  player1 :: "player option"
  player2 :: "player option"
  winner :: "player option"
  annotations :: "string option"

datatype TournamentStatus = not_started | in_progress | completed | archived

record bracket =
  rounds :: "match list list"
  status :: "TournamentStatus option"
  completionPercentage :: "int option"
  lastSaved :: "int option"

text \<open>The one run-time failure of the code modelled here: reading a property of \<^verbatim>\<open>undefined\<close>.\<close>

datatype error = TypeError

section \<open>JavaScript primitives\<close>

text \<open>\<^verbatim>\<open>xs[i]\<close>: the element, or \<^verbatim>\<open>undefined\<close> out of range.\<close>

definition at_index :: "'a list \<Rightarrow> nat \<Rightarrow> 'a option" where
  "at_index xs i = (if i < length xs then Some (xs ! i) else None)"

text \<open>\<^verbatim>\<open>p?.isBye\<close> read as a condition: false for an absent player.\<close>

definition isByeOpt :: "player option \<Rightarrow> bool" where
  "isByeOpt p = (case p of None \<Rightarrow> False | Some q \<Rightarrow> isBye q)"

text \<open>The decimal digits a template literal prints for a non-negative integer.\<close>

definition digit_char :: "nat \<Rightarrow> char" where
  "digit_char d = char_of (48 + d)"

function toString :: "nat \<Rightarrow> string" where
  "toString n = (if n < 10 then [digit_char n] else toString (n div 10) @ [digit_char (n mod 10)])"
  by pat_completeness auto
termination
  by (relation "measure (\<lambda>n. n)") auto

declare toString.simps [simp del]

text \<open>\<^verbatim>\<open>findIndex\<close>: the first index whose element satisfies the predicate; \<open>None\<close> for -1.\<close>

fun findIndex :: "('a \<Rightarrow> bool) \<Rightarrow> 'a list \<Rightarrow> nat option" where
  "findIndex P [] = None"
| "findIndex P (x # xs) =
     (if P x then Some 0 else (case findIndex P xs of None \<Rightarrow> None | Some i \<Rightarrow> Some (Suc i)))"

section \<open>Seeding: \<^verbatim>\<open>calculateByes\<close> and \<^verbatim>\<open>distributeByes\<close>\<close>

text \<open>
  \<^verbatim>\<open>Math.pow(2, Math.ceil(Math.log2(playerCount))) - playerCount\<close>, read in exact
  arithmetic: \<open>ceillog2 n\<close> is \<open>nat \<lceil>log 2 n\<rceil>\<close> for \<open>n > 0\<close>. For \<open>playerCount = 0\<close> the
  logarithm is \<^verbatim>\<open>-Infinity\<close>, its power of two is 0, and the result is 0.
\<close>

definition nextPowerOfTwo :: "nat \<Rightarrow> nat" where
  "nextPowerOfTwo playerCount = (if playerCount = 0 then 0 else 2 ^ ceillog2 playerCount)"

definition calculateByes :: "nat \<Rightarrow> nat" where
  "calculateByes playerCount = nextPowerOfTwo playerCount - playerCount"

definition createBye :: "nat \<Rightarrow> player" where
  "createBye index =
     \<lparr>id_player = ''bye-'' @ toString (index + 1), name = ''BYE'', seed = None,
      poolId = None, isBye = True\<rparr>"

text \<open>
  The \<^verbatim>\<open>for\<close> loop over one half: before the first and before the last entry of the half
  a bye is pushed while \<open>byeIndex\<close> is below the bound; then the entry is pushed. The state
  is the result array and \<open>byeIndex\<close>.
\<close>

function halfLoop ::
  "player list \<Rightarrow> nat \<Rightarrow> player list \<Rightarrow> nat \<Rightarrow> player list \<Rightarrow> nat \<Rightarrow> player list \<times> nat" where
  "halfLoop byePlayers bound half i result byeIndex =
     (if i < length half then
        (if (i = 0 \<or> i = length half - 1) \<and> byeIndex < bound
         then halfLoop byePlayers bound half (i + 1)
                (result @ [byePlayers ! byeIndex, half ! i]) (byeIndex + 1)
         else halfLoop byePlayers bound half (i + 1) (result @ [half ! i]) byeIndex)
      else (result, byeIndex))"
  by pat_completeness auto
termination
  by (relation "measure (\<lambda>(byePlayers, bound, half, i, result, byeIndex). length half - i)") auto

declare halfLoop.simps [simp del]

text \<open>The \<^verbatim>\<open>while\<close> loop that appends the byes left below the bound.\<close>

function remainingLoop :: "player list \<Rightarrow> nat \<Rightarrow> player list \<Rightarrow> nat \<Rightarrow> player list \<times> nat" where
  "remainingLoop byePlayers bound result byeIndex =
     (if byeIndex < bound
      then remainingLoop byePlayers bound (result @ [byePlayers ! byeIndex]) (byeIndex + 1)
      else (result, byeIndex))"
  by pat_completeness auto
termination
  by (relation "measure (\<lambda>(byePlayers, bound, result, byeIndex). bound - byeIndex)") auto

declare remainingLoop.simps [simp del]

text \<open>
  \<^verbatim>\<open>upperHalfSize\<close> is \<^verbatim>\<open>Math.ceil((totalPlayers + 1) / 2)\<close> for an odd count, and
  \<^verbatim>\<open>upperByes\<close> is the floor or the ceiling of \<^verbatim>\<open>byesCount / 2\<close>. The source also
  computes \<^verbatim>\<open>lowerHalfSize\<close> and \<^verbatim>\<open>lowerByes\<close> and never reads them: the lower half is
  \<^verbatim>\<open>players.slice(upperHalfSize)\<close> and its loops are bounded by \<^verbatim>\<open>byesCount\<close>. Every
  read \<^verbatim>\<open>byePlayers[byeIndex]\<close> happens below a bound that is at most \<^verbatim>\<open>byesCount\<close>
  (lemma \<open>upperByes_le\<close>), the length of \<^verbatim>\<open>byePlayers\<close>, and every read of a half happens
  below its length, so no read of these loops is out of range.
\<close>

definition upperHalfSize :: "nat \<Rightarrow> nat" where
  "upperHalfSize totalPlayers =
     (if totalPlayers mod 2 \<noteq> 0 then (totalPlayers + 1 + 1) div 2 else totalPlayers div 2)"

definition upperByes :: "nat \<Rightarrow> nat \<Rightarrow> nat" where
  "upperByes totalPlayers byesCount =
     (if byesCount mod 2 = 0 then byesCount div 2
      else if totalPlayers mod 2 \<noteq> 0 then byesCount div 2
      else (byesCount + 1) div 2)"

definition distributeByes :: "player list \<Rightarrow> nat \<Rightarrow> player list" where
  "distributeByes players byesCount =
     (let totalPlayers = length players;
          upperHalf = take (upperHalfSize totalPlayers) players;
          lowerHalf = drop (upperHalfSize totalPlayers) players;
          byePlayers = map createBye [0..<byesCount];
          s1 = halfLoop byePlayers (upperByes totalPlayers byesCount) upperHalf 0 [] 0;
          s2 = remainingLoop byePlayers (upperByes totalPlayers byesCount) (fst s1) (snd s1);
          s3 = halfLoop byePlayers byesCount lowerHalf 0 (fst s2) (snd s2);
          s4 = remainingLoop byePlayers byesCount (fst s3) (snd s3)
      in fst s4)"

text \<open>The slot list \<^verbatim>\<open>playersWithByes\<close> of \<^verbatim>\<open>generateBracket\<close>: the seeding of a competitor list.\<close>

definition playersWithByes :: "player list \<Rightarrow> player list" where
  "playersWithByes players = distributeByes players (calculateByes (length players))"

section \<open>Building the rounds: \<^verbatim>\<open>generateBracket\<close>\<close>

text \<open>
  The match pushed by the first-round loop at slot index \<open>i\<close>; \<open>slots\<close> stands for the
  array \<^verbatim>\<open>playersWithByes\<close>, and \<^verbatim>\<open>playersWithByes[i + 1]\<close> is \<^verbatim>\<open>undefined\<close> when the
  slot list has odd length. The winner is the second slot
  when the first is a bye, else the first slot when the second is a bye, else absent.
\<close>

definition firstRoundMatch :: "player list \<Rightarrow> nat \<Rightarrow> match" where
  "firstRoundMatch slots i =
     (let p1 = at_index slots i;
          p2 = at_index slots (i + 1)
      in \<lparr>id_match = ''r1-m'' @ toString (i div 2 + 1), round_match = 1,
          player1 = p1, player2 = p2,
          winner = (if isByeOpt p1 then p2 else if isByeOpt p2 then p1 else None),
          annotations = None\<rparr>)"

function firstRoundLoop :: "player list \<Rightarrow> nat \<Rightarrow> match list" where
  "firstRoundLoop slots i =
     (if i < length slots
      then firstRoundMatch slots i # firstRoundLoop slots (i + 2)
      else [])"
  by pat_completeness auto
termination
  by (relation "measure (\<lambda>(slots, i). length slots - i)") auto

declare firstRoundLoop.simps [simp del]

text \<open>
  A match of a later round: its slots are the winners of matches \<open>2 * i\<close> and \<open>2 * i + 1\<close>
  of the previous round (\<^verbatim>\<open>prevRoundMatches[k]?.winner\<close>), and it has no winner property.
\<close>

definition winnerAt :: "match list \<Rightarrow> nat \<Rightarrow> player option" where
  "winnerAt prevRoundMatches k =
     (case at_index prevRoundMatches k of None \<Rightarrow> None | Some m \<Rightarrow> winner m)"

definition laterRoundMatch :: "match list \<Rightarrow> nat \<Rightarrow> nat \<Rightarrow> match" where
  "laterRoundMatch prevRoundMatches r i =
     \<lparr>id_match = ''r'' @ toString r @ ''-m'' @ toString (i + 1), round_match = r,
      player1 = winnerAt prevRoundMatches (i * 2),
      player2 = winnerAt prevRoundMatches (i * 2 + 1),
      winner = None, annotations = None\<rparr>"

text \<open>
  \<^verbatim>\<open>numRounds = Math.log2(totalSlots)\<close> is a real number (\<^verbatim>\<open>-Infinity\<close> for no slot). Read
  in exact arithmetic, the outer condition \<^verbatim>\<open>round <= numRounds\<close> is \<open>2 ^ round \<le> totalSlots\<close>
  and the inner condition \<^verbatim>\<open>i < Math.pow(2, numRounds - round)\<close> is
  \<open>i * 2 ^ round < totalSlots\<close>; the lemmas \<open>outer_condition_exact\<close> and
  \<open>inner_condition_exact\<close> below relate the two forms. For a slot count that is a power
  of two, the only one \<^verbatim>\<open>generateBracket\<close> computes with, the floating-point values are
  exact.
\<close>

function roundMatchesLoop :: "nat \<Rightarrow> match list \<Rightarrow> nat \<Rightarrow> nat \<Rightarrow> match list" where
  "roundMatchesLoop totalSlots prevRoundMatches r i =
     (if i * 2 ^ r < totalSlots
      then laterRoundMatch prevRoundMatches r i # roundMatchesLoop totalSlots prevRoundMatches r (i + 1)
      else [])"
  by pat_completeness auto
termination
proof (relation "measure (\<lambda>(totalSlots, prevRoundMatches, r, i). totalSlots - i)")
  show "wf (measure (\<lambda>(totalSlots, prevRoundMatches, r, i). totalSlots - i))"
    by simp
next
  fix totalSlots :: nat and prevRoundMatches :: "match list" and r i :: nat
  assume a: "i * 2 ^ r < totalSlots"
  have "i \<le> i * 2 ^ r"
    by simp
  with a have "i < totalSlots"
    by linarith
  then show "((totalSlots, prevRoundMatches, r, i + 1), (totalSlots, prevRoundMatches, r, i))
      \<in> measure (\<lambda>(totalSlots, prevRoundMatches, r, i). totalSlots - i)"
    by simp
qed

declare roundMatchesLoop.simps [simp del]

text \<open>
  The loop over the rounds from 2 on; \<^verbatim>\<open>rounds[round - 2]\<close> is the round pushed last
  (the array holds \<open>round - 1\<close> rounds when round \<open>round\<close> is built).
\<close>

function roundsLoop :: "nat \<Rightarrow> nat \<Rightarrow> match list list \<Rightarrow> match list list" where
  "roundsLoop totalSlots r rs =
     (if 2 ^ r \<le> totalSlots
      then roundsLoop totalSlots (r + 1)
             (rs @ [roundMatchesLoop totalSlots (rs ! (r - 2)) r 0])
      else rs)"
  by pat_completeness auto
termination
proof (relation "measure (\<lambda>(totalSlots, r, rs). totalSlots + 1 - 2 ^ r)")
  show "wf (measure (\<lambda>(totalSlots, r, rs). totalSlots + 1 - 2 ^ r))"
    by simp
next
  fix totalSlots r :: nat and rs :: "match list list"
  assume a: "2 ^ r \<le> totalSlots"
  have "(0::nat) < 2 ^ r"
    by simp
  with a have "totalSlots + 1 - 2 ^ (r + 1) < totalSlots + 1 - 2 ^ r"
    by (simp only: power_add power_one_right)
  then show "((totalSlots, r + 1, rs @ [roundMatchesLoop totalSlots (rs ! (r - 2)) r 0]),
      (totalSlots, r, rs)) \<in> measure (\<lambda>(totalSlots, r, rs). totalSlots + 1 - 2 ^ r)"
    by simp
qed

declare roundsLoop.simps [simp del]

text \<open>The part of \<^verbatim>\<open>generateBracket\<close> after the seeding, as a function of the slot list.\<close>

definition buildRounds :: "player list \<Rightarrow> match list list" where
  "buildRounds slots =
     roundsLoop (length slots) 2 [firstRoundLoop slots 0]"

definition generateBracket :: "player list \<Rightarrow> bracket" where
  "generateBracket players =
     \<lparr>rounds = buildRounds (playersWithByes players), status = None,
      completionPercentage = None, lastSaved = None\<rparr>"

section \<open>Propagating a winner: \<^verbatim>\<open>updateBracketWithWinner\<close>\<close>

text \<open>
  The rounds are copied, so the input is never mutated and a no-op returns the input
  itself. \<^verbatim>\<open>winner\<close> is the first slot when that slot is present and its id is
  \<^verbatim>\<open>winnerId\<close>, and the second slot in every other case. With a next round, the parent
  \<^verbatim>\<open>newRounds[roundIndex + 1][Math.floor(matchIndex / 2)]\<close> is read; when it is
  \<^verbatim>\<open>undefined\<close>, one of \<^verbatim>\<open>nextRoundMatch.player1\<close> and \<^verbatim>\<open>nextRoundMatch.player2\<close> is
  evaluated and throws. The result is the object literal \<^verbatim>\<open>{ rounds: newRounds }\<close>.
\<close>

definition hasMatch :: "string \<Rightarrow> match list \<Rightarrow> bool" where
  "hasMatch matchId r = list_ex (\<lambda>m. id_match m = matchId) r"

definition resolveWinner :: "match \<Rightarrow> string \<Rightarrow> player option" where
  "resolveWinner m winnerId =
     (if map_option id_player (player1 m) = Some winnerId then player1 m else player2 m)"

definition setMatch :: "match list list \<Rightarrow> nat \<Rightarrow> nat \<Rightarrow> match \<Rightarrow> match list list" where
  "setMatch rs roundIndex matchIndex m = rs[roundIndex := (rs ! roundIndex)[matchIndex := m]]"

definition updateBracketWithWinner :: "bracket \<Rightarrow> string \<Rightarrow> string \<Rightarrow> error + bracket" where
  "updateBracketWithWinner b matchId winnerId =
     (let newRounds = rounds b in
      case findIndex (hasMatch matchId) newRounds of
        None \<Rightarrow> Inr b
      | Some roundIndex \<Rightarrow>
          (case findIndex (\<lambda>m. id_match m = matchId) (newRounds ! roundIndex) of
             None \<Rightarrow> Inl TypeError
           | Some matchIndex \<Rightarrow>
               (let m = newRounds ! roundIndex ! matchIndex in
                if isByeOpt (player1 m) \<or> isByeOpt (player2 m) then Inr b
                else
                  (let w = resolveWinner m winnerId;
                       newRounds1 = setMatch newRounds roundIndex matchIndex (m\<lparr>winner := w\<rparr>)
                   in if roundIndex < length newRounds1 - 1 then
                        (let nextRoundMatchIndex = matchIndex div 2;
                             isPlayer1 = (matchIndex mod 2 = 0)
                         in case at_index (newRounds1 ! (roundIndex + 1)) nextRoundMatchIndex of
                              None \<Rightarrow> Inl TypeError
                            | Some nextRoundMatch \<Rightarrow>
                                Inr \<lparr>rounds = setMatch newRounds1 (roundIndex + 1) nextRoundMatchIndex
                                       (nextRoundMatch
                                          \<lparr>player1 := (if isPlayer1 then w else player1 nextRoundMatch),
                                           player2 := (if \<not> isPlayer1 then w else player2 nextRoundMatch),
                                           winner := None\<rparr>),
                                     status = None, completionPercentage = None, lastSaved = None\<rparr>)
                      else Inr \<lparr>rounds = newRounds1, status = None, completionPercentage = None,
                                lastSaved = None\<rparr>))))"


section \<open>Example competitors\<close>

text \<open>Four real competitors, as a caller supplies them, for the concrete instances below.\<close>

definition alice :: player where
  "alice = \<lparr>id_player = ''p1'', name = ''Alice'', seed = None, poolId = None, isBye = False\<rparr>"

definition bob :: player where
  "bob = \<lparr>id_player = ''p2'', name = ''Bob'', seed = None, poolId = None, isBye = False\<rparr>"

definition carol :: player where
  "carol = \<lparr>id_player = ''p3'', name = ''Carol'', seed = None, poolId = None, isBye = False\<rparr>"

definition dave :: player where
  "dave = \<lparr>id_player = ''p4'', name = ''Dave'', seed = None, poolId = None, isBye = False\<rparr>"

text \<open>Numbered competitors, and a field of nine of them.\<close>

definition competitor :: "nat \<Rightarrow> player" where
  "competitor n = \<lparr>id_player = ''p'' @ toString n, name = ''Player'', seed = Some (int n), poolId = None, isBye = False\<rparr>"

definition nine :: "player list" where
  "nine = [competitor 1, competitor 2, competitor 3, competitor 4, competitor 5, competitor 6, competitor 7, competitor 8, competitor 9]"

text \<open>
  A bracket of three rounds as it stands in the middle of a tournament of seven
  competitors: the third first-round match holds the bye, the first semi-final and the
  final have been decided, the fourth first-round match has not. It carries a status and
  a completion percentage, as the \<^verbatim>\<open>Bracket\<close> interface declares them.
\<close>

definition exampleMatch ::
  "string \<Rightarrow> nat \<Rightarrow> player option \<Rightarrow> player option \<Rightarrow> player option \<Rightarrow> match" where
  "exampleMatch i r p1 p2 w =
     \<lparr>id_match = i, round_match = r, player1 = p1, player2 = p2, winner = w, annotations = None\<rparr>"

definition exampleBracket :: bracket where
  "exampleBracket =
     \<lparr>rounds =
        [[exampleMatch ''r1-m1'' 1 (Some (competitor 1)) (Some (competitor 2)) (Some (competitor 2)),
          exampleMatch ''r1-m2'' 1 (Some (competitor 3)) (Some (competitor 4)) (Some (competitor 3)),
          exampleMatch ''r1-m3'' 1 (Some (createBye 0)) (Some (competitor 5)) (Some (competitor 5)),
          exampleMatch ''r1-m4'' 1 (Some (competitor 6)) (Some (competitor 7)) None],
         [exampleMatch ''r2-m1'' 2 (Some (competitor 2)) (Some (competitor 3)) (Some (competitor 2)),
          exampleMatch ''r2-m2'' 2 (Some (competitor 5)) None None],
         [exampleMatch ''r3-m1'' 3 (Some (competitor 2)) None (Some (competitor 2))]],
      status = Some in_progress, completionPercentage = Some 71, lastSaved = None\<rparr>"

section \<open>The loops of \<^verbatim>\<open>distributeByes\<close>\<close>

lemma remainingLoop_eq:
  "remainingLoop bs bound result b = (result @ map ((!) bs) [b..<bound], max b bound)"
proof (induction bs bound result b rule: remainingLoop.induct)
  case (1 bs bound result b)
  show ?case
  proof (cases "b < bound")
    case True
    then have "remainingLoop bs bound result b = remainingLoop bs bound (result @ [bs ! b]) (b + 1)"
      by (subst remainingLoop.simps) simp
    also have "\<dots> = ((result @ [bs ! b]) @ map ((!) bs) [b + 1..<bound], max (b + 1) bound)"
      using 1 True by simp
    also have "\<dots> = (result @ map ((!) bs) [b..<bound], max b bound)"
      using True by (simp add: upt_conv_Cons)
    finally show ?thesis .
  next
    case False
    then show ?thesis
      by (subst remainingLoop.simps) simp
  qed
qed

lemma halfLoop_snd_ge: "b \<le> snd (halfLoop bs bound half i result b)"
proof (induction bs bound half i result b rule: halfLoop.induct)
  case (1 bs bound half i result b)
  show ?case
    by (subst halfLoop.simps) (use 1 in \<open>auto intro: Suc_leD\<close>)
qed

lemma halfLoop_snd_le: "b \<le> bound \<Longrightarrow> snd (halfLoop bs bound half i result b) \<le> bound"
proof (induction bs bound half i result b rule: halfLoop.induct)
  case (1 bs bound half i result b)
  show ?case
    by (subst halfLoop.simps) (use 1 in auto)
qed

lemma halfLoop_mset:
  "mset (fst (halfLoop bs bound half i result b)) =
     mset result + mset (drop i half) + mset (map ((!) bs) [b..<snd (halfLoop bs bound half i result b)])"
proof (induction bs bound half i result b rule: halfLoop.induct)
  case (1 bs bound half i result b)
  show ?case
  proof (cases "i < length half")
    case False
    then show ?thesis by (subst (1 2) halfLoop.simps) simp
  next
    case True
    note il = this
    show ?thesis
    proof (cases "(i = 0 \<or> i = length half - 1) \<and> b < bound")
      case True
      have e: "halfLoop bs bound half i result b = halfLoop bs bound half (i + 1) (result @ [bs ! b, half ! i]) (b + 1)"
        using il True by (subst halfLoop.simps) simp
      have g: "Suc b \<le> snd (halfLoop bs bound half (Suc i) (result @ [bs ! b, half ! i]) (Suc b))"
        by (rule halfLoop_snd_ge)
      have u: "[b..<snd (halfLoop bs bound half (Suc i) (result @ [bs ! b, half ! i]) (Suc b))] =
           b # [Suc b..<snd (halfLoop bs bound half (Suc i) (result @ [bs ! b, half ! i]) (Suc b))]"
        using g by (simp add: upt_conv_Cons)
      show ?thesis
        unfolding e using 1(1)[OF il True] il
        by (simp add: u Cons_nth_drop_Suc[symmetric] del: upt_Suc)
    next
      case False
      have e: "halfLoop bs bound half i result b = halfLoop bs bound half (i + 1) (result @ [half ! i]) b"
        using il False by (subst halfLoop.simps) auto
      show ?thesis
        unfolding e using 1(2)[OF il False] il
        by (simp add: Cons_nth_drop_Suc[symmetric])
    qed
  qed
qed

lemma halfLoop_filter:
  assumes "\<And>k. k < length half \<Longrightarrow> \<not> P (half ! k)" and "\<And>k. k < bound \<Longrightarrow> P (bs ! k)" and "b \<le> bound"
  shows "filter P (fst (halfLoop bs bound half i result b)) =
           filter P result @ map ((!) bs) [b..<snd (halfLoop bs bound half i result b)] \<and>
         filter (\<lambda>x. \<not> P x) (fst (halfLoop bs bound half i result b)) =
           filter (\<lambda>x. \<not> P x) result @ drop i half"
  using assms
proof (induction bs bound half i result b rule: halfLoop.induct)
  case (1 bs bound half i result b)
  show ?case
  proof (cases "i < length half")
    case False
    then show ?thesis by (subst (1 2 3) halfLoop.simps) simp
  next
    case True
    note il = this
    show ?thesis
    proof (cases "(i = 0 \<or> i = length half - 1) \<and> b < bound")
      case True
      have e: "halfLoop bs bound half i result b = halfLoop bs bound half (i + 1) (result @ [bs ! b, half ! i]) (b + 1)"
        using il True by (subst halfLoop.simps) simp
      have g: "Suc b \<le> snd (halfLoop bs bound half (Suc i) (result @ [bs ! b, half ! i]) (Suc b))"
        by (rule halfLoop_snd_ge)
      have u: "[b..<snd (halfLoop bs bound half (Suc i) (result @ [bs ! b, half ! i]) (Suc b))] =
           b # [Suc b..<snd (halfLoop bs bound half (Suc i) (result @ [bs ! b, half ! i]) (Suc b))]"
        using g by (simp add: upt_conv_Cons)
      have bb: "b + 1 \<le> bound" using True by simp
      show ?thesis
        unfolding e using 1(1)[OF il True 1(3) 1(4) bb] il True 1(3)[of i] 1(4)[of b]
        by (simp add: u Cons_nth_drop_Suc[symmetric] del: upt_Suc)
    next
      case False
      have e: "halfLoop bs bound half i result b = halfLoop bs bound half (i + 1) (result @ [half ! i]) b"
        using il False by (subst halfLoop.simps) auto
      show ?thesis
        unfolding e using 1(2)[OF il False 1(3) 1(4) 1(5)] il 1(3)[of i]
        by (simp add: Cons_nth_drop_Suc[symmetric])
    qed
  qed
qed

lemma upt_split: "a \<le> b \<Longrightarrow> b \<le> c \<Longrightarrow> [a..<b] @ [b..<c] = [a..<c]"
  by (metis le_Suc_ex upt_add_eq_append)

lemma upperByes_le: "upperByes t n \<le> n"
proof -
  have "n mod 2 \<noteq> 0 \<Longrightarrow> (n + 1) div 2 \<le> n"
    by presburger
  then show ?thesis
    by (simp add: upperByes_def)
qed

lemma distributeByes_unfold:
  fixes ps :: "player list" and n :: nat
  defines "bs \<equiv> map createBye [0..<n]"
  defines "u \<equiv> upperByes (length ps) n"
  defines "h1 \<equiv> halfLoop bs u (take (upperHalfSize (length ps)) ps) 0 [] 0"
  defines "h3 \<equiv> halfLoop bs n (drop (upperHalfSize (length ps)) ps) 0
                   (fst h1 @ map ((!) bs) [snd h1..<u]) u"
  shows "distributeByes ps n = fst h3 @ map ((!) bs) [snd h3..<n]"
    and "snd h1 \<le> u" and "u \<le> snd h3" and "snd h3 \<le> n"
proof -
  show a: "snd h1 \<le> u"
    unfolding h1_def by (rule halfLoop_snd_le) simp
  show "u \<le> snd h3"
    unfolding h3_def by (rule halfLoop_snd_ge)
  show "snd h3 \<le> n"
    unfolding h3_def by (rule halfLoop_snd_le) (simp add: u_def upperByes_le)
  show "distributeByes ps n = fst h3 @ map ((!) bs) [snd h3..<n]"
    using a by (simp add: distributeByes_def Let_def remainingLoop_eq h3_def h1_def u_def bs_def max_absorb2)
qed

lemma distributeByes_mset:
  "mset (distributeByes ps n) = mset ps + mset (map createBye [0..<n])"
proof -
  define bs where "bs = map createBye [0..<n]"
  define u where "u = upperByes (length ps) n"
  define h1 where "h1 = halfLoop bs u (take (upperHalfSize (length ps)) ps) 0 [] 0"
  define h3 where "h3 = halfLoop bs n (drop (upperHalfSize (length ps)) ps) 0
                   (fst h1 @ map ((!) bs) [snd h1..<u]) u"
  have f: "distributeByes ps n = fst h3 @ map ((!) bs) [snd h3..<n]"
    "snd h1 \<le> u" "u \<le> snd h3" "snd h3 \<le> n"
    unfolding h3_def h1_def u_def bs_def by (rule distributeByes_unfold)+
  have m1: "mset (fst h1) = mset (take (upperHalfSize (length ps)) ps) + mset (map ((!) bs) [0..<snd h1])"
    unfolding h1_def by (subst halfLoop_mset) simp
  have m3: "mset (fst h3) = mset (fst h1) + mset (map ((!) bs) [snd h1..<u])
       + mset (drop (upperHalfSize (length ps)) ps) + mset (map ((!) bs) [u..<snd h3])"
    unfolding h3_def by (subst halfLoop_mset) simp
  have "mset (distributeByes ps n) =
      (mset (take (upperHalfSize (length ps)) ps) + mset (drop (upperHalfSize (length ps)) ps))
      + mset (map ((!) bs) (([0..<snd h1] @ [snd h1..<u]) @ [u..<snd h3] @ [snd h3..<n]))"
    unfolding f(1) by (simp add: m3 m1)
  also have "mset (take (upperHalfSize (length ps)) ps) + mset (drop (upperHalfSize (length ps)) ps) = mset ps"
    by (simp add: union_code)
  also have "([0..<snd h1] @ [snd h1..<u]) @ [u..<snd h3] @ [snd h3..<n] = [0..<n]"
    using f(2,3,4) by (simp add: upt_split)
  also have "map ((!) bs) [0..<n] = bs"
    using map_nth[of bs] by (simp add: bs_def)
  finally show ?thesis by (simp add: bs_def)
qed

lemma length_distributeByes: "length (distributeByes ps n) = length ps + n"
proof -
  have "size (mset (distributeByes ps n)) = size (mset ps + mset (map createBye [0..<n]))"
    by (simp only: distributeByes_mset)
  then show ?thesis by simp
qed

lemma distributeByes_filter:
  assumes "\<forall>p\<in>set ps. \<not> isBye p"
  shows "filter isBye (distributeByes ps n) = map createBye [0..<n]"
    and "filter (\<lambda>p. \<not> isBye p) (distributeByes ps n) = ps"
proof -
  define bs where "bs = map createBye [0..<n]"
  define u where "u = upperByes (length ps) n"
  define h1 where "h1 = halfLoop bs u (take (upperHalfSize (length ps)) ps) 0 [] 0"
  define h3 where "h3 = halfLoop bs n (drop (upperHalfSize (length ps)) ps) 0
                   (fst h1 @ map ((!) bs) [snd h1..<u]) u"
  have f: "distributeByes ps n = fst h3 @ map ((!) bs) [snd h3..<n]"
    "snd h1 \<le> u" "u \<le> snd h3" "snd h3 \<le> n"
    unfolding h3_def h1_def u_def bs_def by (rule distributeByes_unfold)+
  have un: "u \<le> n" by (simp add: u_def upperByes_le)
  have byes: "isBye (bs ! k)" if "k < n" for k
    using that by (simp add: bs_def createBye_def)
  have up: "\<not> isBye (take (upperHalfSize (length ps)) ps ! k)" if "k < length (take (upperHalfSize (length ps)) ps)" for k
    using assms that by (metis in_set_takeD nth_mem)
  have lo: "\<not> isBye (drop (upperHalfSize (length ps)) ps ! k)" if "k < length (drop (upperHalfSize (length ps)) ps)" for k
    using assms that by (metis in_set_dropD nth_mem)
  have ft: "filter isBye (map ((!) bs) [a..<b]) = map ((!) bs) [a..<b]"
    and fn: "filter (\<lambda>p. \<not> isBye p) (map ((!) bs) [a..<b]) = []" if "b \<le> n" for a b
    using that byes by (auto simp: filter_empty_conv)
  have k1: "filter isBye (fst h1) = map ((!) bs) [0..<snd h1] \<and>
        filter (\<lambda>p. \<not> isBye p) (fst h1) = take (upperHalfSize (length ps)) ps"
    unfolding h1_def
    using halfLoop_filter[of "take (upperHalfSize (length ps)) ps" isBye u bs 0 0 "[]"] up byes un
    by simp
  have k3: "filter isBye (fst h3) = filter isBye (fst h1 @ map ((!) bs) [snd h1..<u]) @ map ((!) bs) [u..<snd h3] \<and>
        filter (\<lambda>p. \<not> isBye p) (fst h3) = filter (\<lambda>p. \<not> isBye p) (fst h1 @ map ((!) bs) [snd h1..<u]) @ drop (upperHalfSize (length ps)) ps"
    unfolding h3_def
    using halfLoop_filter[of "drop (upperHalfSize (length ps)) ps" isBye n bs u 0 "fst h1 @ map ((!) bs) [snd h1..<u]"] lo byes un
    by simp
  have "filter isBye (distributeByes ps n) = map ((!) bs) (([0..<snd h1] @ [snd h1..<u]) @ [u..<snd h3] @ [snd h3..<n])"
    unfolding f(1) using k1 k3 un f(4) by (simp add: ft)
  also have "([0..<snd h1] @ [snd h1..<u]) @ [u..<snd h3] @ [snd h3..<n] = [0..<n]"
    using f(2,3,4) by (simp add: upt_split)
  also have "map ((!) bs) [0..<n] = bs"
    using map_nth[of bs] by (simp add: bs_def)
  finally show "filter isBye (distributeByes ps n) = map createBye [0..<n]"
    by (simp add: bs_def)
  show "filter (\<lambda>p. \<not> isBye p) (distributeByes ps n) = ps"
    unfolding f(1) using k1 k3 un f(4) by (simp add: fn)
qed

section \<open>Identifiers of the byes\<close>

lemma digit_char_inj: "a < 10 \<Longrightarrow> b < 10 \<Longrightarrow> digit_char a = digit_char b \<Longrightarrow> a = b"
proof -
  assume a: "a < 10" and b: "b < 10" and e: "digit_char a = digit_char b"
  from e have "(of_char (char_of (48 + a) :: char) :: nat) = of_char (char_of (48 + b) :: char)"
    by (simp add: digit_char_def)
  then have "(48 + a) mod 256 = (48 + b) mod 256"
    by (simp only: of_char_of)
  with a b show "a = b" by simp
qed

lemma toString_nonempty: "toString n \<noteq> []"
  by (subst toString.simps) simp

lemma toString_inj: "toString m = toString n \<Longrightarrow> m = n"
proof (induction m arbitrary: n rule: toString.induct)
  case (1 m)
  show ?case
  proof (cases "m < 10")
    case True
    then have m: "toString m = [digit_char m]"
      by (subst toString.simps) simp
    show ?thesis
    proof (cases "n < 10")
      case n: True
      then have "toString n = [digit_char n]"
        by (subst toString.simps) simp
      with m 1(2) have "digit_char m = digit_char n" by simp
      with True n show ?thesis by (rule digit_char_inj)
    next
      case False
      then have "toString n = toString (n div 10) @ [digit_char (n mod 10)]"
        by (subst toString.simps) simp
      with m 1(2) have "toString (n div 10) = []" by simp
      then show ?thesis by (simp add: toString_nonempty)
    qed
  next
    case False
    then have m: "toString m = toString (m div 10) @ [digit_char (m mod 10)]"
      by (subst toString.simps) simp
    show ?thesis
    proof (cases "n < 10")
      case True
      then have "toString n = [digit_char n]"
        by (subst toString.simps) simp
      with m 1(2) have "toString (m div 10) = []" by simp
      then show ?thesis by (simp add: toString_nonempty)
    next
      case n: False
      then have "toString n = toString (n div 10) @ [digit_char (n mod 10)]"
        by (subst toString.simps) simp
      with m 1(2) have e: "toString (m div 10) = toString (n div 10)"
        and d: "digit_char (m mod 10) = digit_char (n mod 10)" by simp_all
      from 1(1)[OF False e] have q: "m div 10 = n div 10" .
      have "m mod 10 = n mod 10"
        by (rule digit_char_inj[OF _ _ d]) simp_all
      with q show ?thesis by (metis div_mult_mod_eq)
    qed
  qed
qed

lemma createBye_id_inj: "id_player (createBye i) = id_player (createBye j) \<Longrightarrow> i = j"
  using toString_inj[of "i + 1" "j + 1"] by (simp add: createBye_def)

lemma distinct_bye_ids: "distinct (map id_player (map createBye [0..<n]))"
proof -
  have "inj_on (\<lambda>k. id_player (createBye k)) (set [0..<n])"
    by (rule inj_onI) (rule createBye_id_inj)
  then have "distinct (map (\<lambda>k. id_player (createBye k)) [0..<n])"
    by (simp add: distinct_map)
  then show ?thesis
    by (simp add: comp_def)
qed

lemma calculateByes_sum: "0 < n \<Longrightarrow> n + calculateByes n = 2 ^ ceillog2 n"
  using le_two_power_ceillog2[of n] by (simp add: calculateByes_def nextPowerOfTwo_def)

lemma calculateByes_0: "calculateByes 0 = 0"
  by (simp add: calculateByes_def nextPowerOfTwo_def)


section \<open>Claims about the seeding\<close>

lemma ceillog2_5: "ceillog2 5 = 3"
  by (rule ceillog2_eqI) simp_all

lemma calculateByes_5: "calculateByes 5 = 3"
    by (simp add: calculateByes_def nextPowerOfTwo_def ceillog2_5)

lemma upt_0_3: "[0..<3] = [0, 1, 2]"
    by (simp add: upt_rec)

lemma halfLoop_upper_five: "halfLoop bs (Suc 0) [c1, c2, c3] 0 [] 0 = ([bs ! 0, c1, c2, c3], Suc 0)"
  by (simp add: halfLoop.simps)

lemma halfLoop_lower_five: "halfLoop bs 3 [c4, c5] 0 r (Suc 0) = (r @ [bs ! Suc 0, c4, bs ! Suc (Suc 0), c5], 3)"
  by (simp add: halfLoop.simps)


lemma five_slots_order:
  "playersWithByes [c1, c2, c3, c4, c5] =
     [createBye 0, c1, c2, c3, createBye 1, c4, createBye 2, c5]"
proof -
  have n: "length [c1, c2, c3, c4, c5] = 5"
    by simp
  have "playersWithByes [c1, c2, c3, c4, c5] = distributeByes [c1, c2, c3, c4, c5] 3"
    by (simp only: playersWithByes_def n calculateByes_5)
  also have "\<dots> = [createBye 0, c1, c2, c3, createBye 1, c4, createBye 2, c5]"
    by (simp add: distributeByes_def Let_def upperHalfSize_def upperByes_def
        upt_0_3 halfLoop_upper_five halfLoop_lower_five remainingLoop_eq)
  finally show ?thesis .
qed

lemma createBye_0:
  "createBye 0 = \<lparr>id_player = ''bye-1'', name = ''BYE'', seed = None, poolId = None, isBye = True\<rparr>"
  by code_simp

lemma createBye_1:
  "createBye 1 = \<lparr>id_player = ''bye-2'', name = ''BYE'', seed = None, poolId = None, isBye = True\<rparr>"
  by code_simp

lemma createBye_2:
  "createBye 2 = \<lparr>id_player = ''bye-3'', name = ''BYE'', seed = None, poolId = None, isBye = True\<rparr>"
  by code_simp

text \<open>
  Claim C6. For exactly five competitors \<open>c1\<close>, ..., \<open>c5\<close> in order, the seeding returns
  the eight slots bye, \<open>c1\<close>, \<open>c2\<close>, \<open>c3\<close>, bye, \<open>c4\<close>, bye, \<open>c5\<close>, where the three byes
  are the entries flagged \<^verbatim>\<open>isBye\<close>, named \<^verbatim>\<open>BYE\<close>, with the identifiers \<^verbatim>\<open>bye-1\<close>,
  \<^verbatim>\<open>bye-2\<close> and \<^verbatim>\<open>bye-3\<close> in the order of their creation: one before the first entry of
  the upper half, one before the first and one before the last entry of the lower half,
  whose loop is bounded by the total number of byes.
\<close>

theorem seed_five:
  "playersWithByes [c1, c2, c3, c4, c5] =
     [\<lparr>id_player = ''bye-1'', name = ''BYE'', seed = None, poolId = None, isBye = True\<rparr>,
      c1, c2, c3,
      \<lparr>id_player = ''bye-2'', name = ''BYE'', seed = None, poolId = None, isBye = True\<rparr>,
      c4,
      \<lparr>id_player = ''bye-3'', name = ''BYE'', seed = None, poolId = None, isBye = True\<rparr>,
      c5]"
  by (simp only: five_slots_order createBye_0 createBye_1 createBye_2)

text \<open>
  Claim C1. For every non-empty list of \<open>N\<close> competitors (none of them flagged as a bye),
  the length of the slot list is a power of two that is at least \<open>N\<close> and at most every
  other power of two that is at least \<open>N\<close>, and the number of entries flagged as byes is
  that power of two minus \<open>N\<close>.
\<close>

theorem seed_length:
  assumes "ps \<noteq> []" and "\<forall>p\<in>set ps. \<not> isBye p"
  shows "\<exists>k. length (playersWithByes ps) = 2 ^ k \<and> length ps \<le> 2 ^ k \<and>
           (\<forall>j. length ps \<le> 2 ^ j \<longrightarrow> (2::nat) ^ k \<le> 2 ^ j) \<and>
           length (filter isBye (playersWithByes ps)) = 2 ^ k - length ps"
proof (intro exI[of _ "ceillog2 (length ps)"] conjI allI impI)
  from assms(1) have pos: "0 < length ps" by simp
  show "length (playersWithByes ps) = 2 ^ ceillog2 (length ps)"
    using calculateByes_sum[OF pos] by (simp add: playersWithByes_def length_distributeByes)
  show "length ps \<le> 2 ^ ceillog2 (length ps)"
    by (rule le_two_power_ceillog2)
  show "(2::nat) ^ ceillog2 (length ps) \<le> 2 ^ j" if "length ps \<le> 2 ^ j" for j
    using that ceillog2_le_iff[OF pos, of j] by simp
  show "length (filter isBye (playersWithByes ps)) = 2 ^ ceillog2 (length ps) - length ps"
    using calculateByes_sum[OF pos] distributeByes_filter(1)[OF assms(2), of "calculateByes (length ps)"]
    by (simp add: playersWithByes_def)
qed

theorem seed_length_witness:
  "length (playersWithByes [alice, bob, carol]) = 4 \<and>
   length (filter isBye (playersWithByes [alice, bob, carol])) = 1"
proof -
  have h1: "[alice, bob, carol] \<noteq> []"
    by simp
  have h2: "\<forall>p\<in>set [alice, bob, carol]. \<not> isBye p"
    by (simp add: alice_def bob_def carol_def)
  from seed_length[OF h1 h2] obtain k where
    k1: "length (playersWithByes [alice, bob, carol]) = 2 ^ k" and
    k2: "length [alice, bob, carol] \<le> 2 ^ k" and
    k3: "\<forall>j. length [alice, bob, carol] \<le> 2 ^ j \<longrightarrow> (2::nat) ^ k \<le> 2 ^ j" and
    k4: "length (filter isBye (playersWithByes [alice, bob, carol])) = 2 ^ k - length [alice, bob, carol]"
    by blast
  from k3[rule_format, of 2] have "(2::nat) ^ k \<le> 2 ^ 2"
    by simp
  then have "k \<le> 2"
    by (rule power_le_imp_le_exp[rotated]) simp
  then consider "k = 0" | "k = 1" | "k = 2"
    by linarith
  then have "k = 2"
    using k2 by cases simp_all
  with k1 k4 show ?thesis
    by simp
qed

section \<open>The loops of \<^verbatim>\<open>generateBracket\<close>\<close>

lemma outer_condition_exact:
  "0 < n \<Longrightarrow> real r \<le> log 2 (real n) \<longleftrightarrow> 2 ^ r \<le> n"
proof -
  assume n: "0 < n"
  then have "real r \<le> log 2 (real n) \<longleftrightarrow> 2 powr real r \<le> real n"
    by (simp add: le_log_iff)
  also have "\<dots> \<longleftrightarrow> real (2 ^ r) \<le> real n"
    by (simp add: powr_realpow)
  also have "\<dots> \<longleftrightarrow> 2 ^ r \<le> n"
    by (rule of_nat_le_iff)
  finally show ?thesis .
qed

lemma inner_condition_exact:
  "0 < n \<Longrightarrow> real i < 2 powr (log 2 (real n) - real r) \<longleftrightarrow> i * 2 ^ r < n"
proof -
  assume n: "0 < n"
  then have "2 powr (log 2 (real n) - real r) = real n / 2 ^ r"
    by (simp add: powr_diff powr_realpow)
  then have "real i < 2 powr (log 2 (real n) - real r) \<longleftrightarrow> real i * 2 ^ r < real n"
    by (simp add: pos_less_divide_eq)
  also have "\<dots> \<longleftrightarrow> real (i * 2 ^ r) < real n"
    by simp
  also have "\<dots> \<longleftrightarrow> i * 2 ^ r < n"
    by (rule of_nat_less_iff)
  finally show ?thesis .
qed

lemma firstRoundLoop_eq:
  "firstRoundLoop slots (2 * j) =
     map (\<lambda>q. firstRoundMatch slots (2 * q)) [j..<(length slots + 1) div 2]"
proof (induction "(length slots + 1) div 2 - j" arbitrary: j)
  case 0
  then have "\<not> 2 * j < length slots"
    by linarith
  then have "firstRoundLoop slots (2 * j) = []"
    by (subst firstRoundLoop.simps) simp
  with 0 show ?case
    by simp
next
  case (Suc d)
  then have lt: "j < (length slots + 1) div 2"
    by linarith
  then have "2 * j < length slots"
    by linarith
  then have "firstRoundLoop slots (2 * j) =
      firstRoundMatch slots (2 * j) # firstRoundLoop slots (2 * Suc j)"
    by (subst firstRoundLoop.simps) simp
  also have "firstRoundLoop slots (2 * Suc j) =
      map (\<lambda>q. firstRoundMatch slots (2 * q)) [Suc j..<(length slots + 1) div 2]"
    using Suc by (intro Suc(1)) linarith
  finally show ?case
    using lt by (simp add: upt_conv_Cons del: upt_Suc)
qed

lemma roundMatchesLoop_eq:
  assumes "\<And>q. q * 2 ^ r < n \<longleftrightarrow> q < c"
  shows "roundMatchesLoop n prev r i = map (laterRoundMatch prev r) [i..<c]"
proof (induction "c - i" arbitrary: i)
  case 0
  then have "\<not> i * 2 ^ r < n"
    using assms by simp
  then have "roundMatchesLoop n prev r i = []"
    by (subst roundMatchesLoop.simps) simp
  with 0 show ?case
    by simp
next
  case (Suc d)
  then have lt: "i < c"
    by linarith
  then have "i * 2 ^ r < n"
    using assms by simp
  then have "roundMatchesLoop n prev r i =
      laterRoundMatch prev r i # roundMatchesLoop n prev r (Suc i)"
    by (subst roundMatchesLoop.simps) simp
  also have "roundMatchesLoop n prev r (Suc i) = map (laterRoundMatch prev r) [Suc i..<c]"
    using Suc by (intro Suc(1)) linarith
  finally show ?case
    using lt by (simp add: upt_conv_Cons del: upt_Suc)
qed

lemma roundMatchesLoop_winner:
  "m \<in> set (roundMatchesLoop n prev r i) \<Longrightarrow> winner m = None"
proof (induction n prev r i rule: roundMatchesLoop.induct)
  case (1 n prev r i)
  from 1(2) show ?case
    by (subst (asm) roundMatchesLoop.simps) (use 1(1) in \<open>auto simp: laterRoundMatch_def split: if_splits\<close>)
qed

lemma power_two_bound: "r \<le> k \<Longrightarrow> q * 2 ^ r < (2::nat) ^ k \<longleftrightarrow> q < 2 ^ (k - r)"
proof -
  assume "r \<le> k"
  then have "(2::nat) ^ k = 2 ^ (k - r) * 2 ^ r"
    by (simp add: power_add[symmetric])
  then show ?thesis
    by simp
qed

lemma length_roundMatchesLoop_pow:
  "r \<le> k \<Longrightarrow> length (roundMatchesLoop (2 ^ k) prev r 0) = 2 ^ (k - r)"
  using roundMatchesLoop_eq[of r "2 ^ k" "2 ^ (k - r)" prev 0]
  by (simp add: power_two_bound)

lemma roundsLoop_append:
  "\<exists>X. roundsLoop n r rs = rs @ X \<and> (\<forall>ms\<in>set X. \<forall>m\<in>set ms. winner m = None) \<and>
       (\<forall>k. n = 2 ^ k \<and> r \<le> k + 1 \<longrightarrow>
          length X = k + 1 - r \<and> (\<forall>q<length X. length (X ! q) = 2 ^ (k - (r + q))))"
proof (induction n r rs rule: roundsLoop.induct)
  case (1 n r rs)
  show ?case
  proof (cases "2 ^ r \<le> n")
    case False
    then have e: "roundsLoop n r rs = rs"
      by (subst roundsLoop.simps) simp
    have "k + 1 - r = 0" if "n = 2 ^ k" "r \<le> k + 1" for k
    proof -
      from False that(1) have "\<not> r \<le> k"
        by simp
      with that(2) show ?thesis by simp
    qed
    then have "\<forall>k. n = 2 ^ k \<and> r \<le> k + 1 \<longrightarrow> k + 1 - r = 0"
      by blast
    then show ?thesis
      unfolding e by (intro exI[of _ "[]"]) simp
  next
    case True
    define new where "new = roundMatchesLoop n (rs ! (r - 2)) r 0"
    have e: "roundsLoop n r rs = roundsLoop n (r + 1) (rs @ [new])"
      using True by (subst roundsLoop.simps) (simp add: new_def)
    from 1[OF True] obtain X where
      X1: "roundsLoop n (r + 1) (rs @ [new]) = (rs @ [new]) @ X" and
      X2: "\<forall>ms\<in>set X. \<forall>m\<in>set ms. winner m = None" and
      X3: "\<forall>k. n = 2 ^ k \<and> r + 1 \<le> k + 1 \<longrightarrow>
          length X = k + 1 - (r + 1) \<and> (\<forall>q<length X. length (X ! q) = 2 ^ (k - (r + 1 + q)))"
      unfolding new_def by blast
    have w: "\<forall>m\<in>set new. winner m = None"
      unfolding new_def by (auto dest: roundMatchesLoop_winner)
    have p: "length (new # X) = k + 1 - r \<and> (\<forall>q<length (new # X). length ((new # X) ! q) = 2 ^ (k - (r + q)))"
      if "n = 2 ^ k" "r \<le> k + 1" for k
    proof -
      from True that(1) have rk: "r \<le> k"
        by simp
      with X3 that(1) have l: "length X = k - r"
        and c: "\<forall>q<length X. length (X ! q) = 2 ^ (k - (r + 1 + q))"
        by auto
      have n0: "length new = 2 ^ (k - r)"
        unfolding new_def that(1) by (rule length_roundMatchesLoop_pow[OF rk])
      have "length ((new # X) ! q) = 2 ^ (k - (r + q))" if "q < length (new # X)" for q
        using that c n0 by (cases q) auto
      with l rk show ?thesis
        by simp
    qed
    show ?thesis
      unfolding e X1 using X2 w p by (intro exI[of _ "new # X"]) simp
  qed
qed

lemma toString_digit: "n < 10 \<Longrightarrow> toString n = [digit_char n]"
  by (subst toString.simps) simp

lemma toString_12: "toString 12 = ''12''"
  by code_simp

lemma buildRounds_first: "buildRounds slots ! 0 = firstRoundLoop slots 0"
  using roundsLoop_append[of "length slots" 2 "[firstRoundLoop slots 0]"]
  by (auto simp: buildRounds_def)

lemma firstRoundLoop_nth:
  "2 * i < length slots \<Longrightarrow> firstRoundLoop slots 0 ! i = firstRoundMatch slots (2 * i)"
  using firstRoundLoop_eq[of slots 0] by simp

lemma length_firstRoundLoop: "length (firstRoundLoop slots 0) = (length slots + 1) div 2"
  using firstRoundLoop_eq[of slots 0] by simp

lemma buildRounds_later_winner:
  assumes "0 < r" and "r < length (buildRounds slots)" and "m \<in> set (buildRounds slots ! r)"
  shows "winner m = None"
proof -
  obtain X where X: "buildRounds slots = [firstRoundLoop slots 0] @ X"
    and w: "\<forall>ms\<in>set X. \<forall>m\<in>set ms. winner m = None"
    using roundsLoop_append[of "length slots" 2 "[firstRoundLoop slots 0]"]
    unfolding buildRounds_def by blast
  from assms(1,2) X have "buildRounds slots ! r = X ! (r - 1)" and "r - 1 < length X"
    by (auto simp: nth_Cons')
  with assms(3) w show ?thesis
    by (metis nth_mem)
qed

text \<open>
  A first-round match whose two slots exist pairs the slots \<open>2 * i\<close> and \<open>2 * i + 1\<close>. When
  exactly one of them is a bye its winner is the other competitor, and without a bye it
  has no winner. No match of a later round has a winner after the build.
\<close>

lemma first_round_single_bye:
  assumes "2 * i + 1 < length slots"
  shows "player1 (buildRounds slots ! 0 ! i) = Some (slots ! (2 * i)) \<and>
         player2 (buildRounds slots ! 0 ! i) = Some (slots ! (2 * i + 1)) \<and>
         (isBye (slots ! (2 * i)) \<and> \<not> isBye (slots ! (2 * i + 1)) \<longrightarrow>
            winner (buildRounds slots ! 0 ! i) = Some (slots ! (2 * i + 1))) \<and>
         (\<not> isBye (slots ! (2 * i)) \<and> isBye (slots ! (2 * i + 1)) \<longrightarrow>
            winner (buildRounds slots ! 0 ! i) = Some (slots ! (2 * i))) \<and>
         (\<not> isBye (slots ! (2 * i)) \<and> \<not> isBye (slots ! (2 * i + 1)) \<longrightarrow>
            winner (buildRounds slots ! 0 ! i) = None) \<and>
         (\<forall>r m. 0 < r \<and> r < length (buildRounds slots) \<and> m \<in> set (buildRounds slots ! r)
            \<longrightarrow> winner m = None)"
proof -
  from assms have "2 * i < length slots"
    by simp
  then have "buildRounds slots ! 0 ! i = firstRoundMatch slots (2 * i)"
    by (simp add: buildRounds_first firstRoundLoop_nth)
  with assms show ?thesis
    by (auto simp: firstRoundMatch_def at_index_def isByeOpt_def Let_def
        dest: buildRounds_later_winner)
qed

lemma buildRounds_shape_pos:
  assumes "length slots = 2 ^ k" and "1 \<le> k"
  shows "length (buildRounds slots) = k \<and>
         (\<forall>r. 1 \<le> r \<and> r \<le> k \<longrightarrow> length (buildRounds slots ! (r - 1)) = 2 ^ (k - r)) \<and>
         2 * length (buildRounds slots ! 0) = length slots \<and>
         (\<forall>i<2 ^ (k - 1).
            id_match (buildRounds slots ! 0 ! i) = ''r1-m'' @ toString (i + 1) \<and>
            player1 (buildRounds slots ! 0 ! i) = Some (slots ! (2 * i)) \<and>
            player2 (buildRounds slots ! 0 ! i) = Some (slots ! (2 * i + 1)))"
proof -
  from assms(2) obtain k' where k': "k = Suc k'"
    by (cases k) auto
  have half: "Suc (length slots) div 2 = 2 ^ k'"
    by (simp add: assms(1) k')
  obtain X where X: "buildRounds slots = [firstRoundLoop slots 0] @ X"
    and l: "length X = k + 1 - 2"
    and q: "\<forall>q<length X. length (X ! q) = 2 ^ (k - (2 + q))"
    using roundsLoop_append[of "length slots" 2 "[firstRoundLoop slots 0]"] assms
    unfolding buildRounds_def by auto
  have a: "length (buildRounds slots) = k"
    using X l assms(2) by simp
  have b: "length (buildRounds slots ! (r - 1)) = 2 ^ (k - r)" if "1 \<le> r" "r \<le> k" for r
  proof (cases "r = 1")
    case True
    then show ?thesis
      by (simp add: buildRounds_first length_firstRoundLoop half k')
  next
    case False
    with that l have "r - 2 < length X" and "buildRounds slots ! (r - 1) = X ! (r - 2)"
      by (auto simp: X nth_Cons' numeral_2_eq_2)
    with q that False show ?thesis
      by simp
  qed
  have c: "2 * length (buildRounds slots ! 0) = length slots"
    by (simp add: buildRounds_first length_firstRoundLoop half assms(1) k')
  have d: "id_match (buildRounds slots ! 0 ! i) = ''r1-m'' @ toString (i + 1) \<and>
            player1 (buildRounds slots ! 0 ! i) = Some (slots ! (2 * i)) \<and>
            player2 (buildRounds slots ! 0 ! i) = Some (slots ! (2 * i + 1))" if "i < 2 ^ (k - 1)" for i
  proof -
    from that have "2 * i + 1 < length slots"
      by (simp add: assms(1) k')
    then show ?thesis
      by (simp add: buildRounds_first firstRoundLoop_nth firstRoundMatch_def at_index_def Let_def)
  qed
  from a b c d show ?thesis
    by blast
qed

lemma toString_1: "toString 1 = ''1''"
  by code_simp

lemma buildRounds_single_slot:
  assumes "length slots = 1"
  shows "length (buildRounds slots) = 1 \<and> length (buildRounds slots ! 0) = 1 \<and>
         id_match (buildRounds slots ! 0 ! 0) = ''r1-m1'' \<and>
         player1 (buildRounds slots ! 0 ! 0) = Some (slots ! 0) \<and>
         player2 (buildRounds slots ! 0 ! 0) = None \<and>
         winner (buildRounds slots ! 0 ! 0) = None"
proof -
  have r: "roundsLoop 1 2 rs = rs" for rs
    by (subst roundsLoop.simps) simp
  have b: "buildRounds slots = [firstRoundLoop slots 0]"
    using r by (simp add: buildRounds_def assms)
  have m: "firstRoundLoop slots 0 ! 0 = firstRoundMatch slots (2 * 0)"
    by (rule firstRoundLoop_nth) (simp add: assms)
  have l: "length (firstRoundLoop slots 0) = 1"
    by (simp add: length_firstRoundLoop assms)
  from m have m': "buildRounds slots ! 0 ! 0 = firstRoundMatch slots 0"
    by (simp add: b)
  show ?thesis
    unfolding m' using l toString_1
    by (simp add: b firstRoundMatch_def at_index_def isByeOpt_def Let_def assms)
qed

text \<open>
  Claim C7, with the single slot apart. For a slot list of length \<open>2 ^ k\<close> with \<open>k \<ge> 1\<close>
  the build returns exactly \<open>k\<close> rounds, round \<open>r\<close> (counted from 1) has \<open>2 ^ (k - r)\<close>
  matches, twice the number of first-round matches is the number of slots, and the
  first-round match at position \<open>i\<close> has the identifier \<^verbatim>\<open>r1-m\<close> followed by \<open>i + 1\<close> and
  pairs the slots \<open>2 * i\<close> and \<open>2 * i + 1\<close>. For \<open>k = 0\<close>, a single slot, the build returns
  one round with the one match \<^verbatim>\<open>r1-m1\<close>, which holds the slot against an empty second
  slot and has no winner.
\<close>

theorem build_rounds_shape:
  assumes "length slots = 2 ^ k"
  shows "(1 \<le> k \<longrightarrow>
           length (buildRounds slots) = k \<and>
           (\<forall>r. 1 \<le> r \<and> r \<le> k \<longrightarrow> length (buildRounds slots ! (r - 1)) = 2 ^ (k - r)) \<and>
           2 * length (buildRounds slots ! 0) = length slots \<and>
           (\<forall>i<2 ^ (k - 1).
              id_match (buildRounds slots ! 0 ! i) = ''r1-m'' @ toString (i + 1) \<and>
              player1 (buildRounds slots ! 0 ! i) = Some (slots ! (2 * i)) \<and>
              player2 (buildRounds slots ! 0 ! i) = Some (slots ! (2 * i + 1)))) \<and>
         (k = 0 \<longrightarrow>
           length (buildRounds slots) = 1 \<and> length (buildRounds slots ! 0) = 1 \<and>
           id_match (buildRounds slots ! 0 ! 0) = ''r1-m1'' \<and>
           player1 (buildRounds slots ! 0 ! 0) = Some (slots ! 0) \<and>
           player2 (buildRounds slots ! 0 ! 0) = None \<and>
           winner (buildRounds slots ! 0 ! 0) = None)"
proof (rule conjI; rule impI)
  assume "1 \<le> k"
  with assms show "length (buildRounds slots) = k \<and>
           (\<forall>r. 1 \<le> r \<and> r \<le> k \<longrightarrow> length (buildRounds slots ! (r - 1)) = 2 ^ (k - r)) \<and>
           2 * length (buildRounds slots ! 0) = length slots \<and>
           (\<forall>i<2 ^ (k - 1).
              id_match (buildRounds slots ! 0 ! i) = ''r1-m'' @ toString (i + 1) \<and>
              player1 (buildRounds slots ! 0 ! i) = Some (slots ! (2 * i)) \<and>
              player2 (buildRounds slots ! 0 ! i) = Some (slots ! (2 * i + 1)))"
    by (rule buildRounds_shape_pos)
next
  assume "k = 0"
  with assms have "length slots = 1"
    by simp
  then show "length (buildRounds slots) = 1 \<and> length (buildRounds slots ! 0) = 1 \<and>
           id_match (buildRounds slots ! 0 ! 0) = ''r1-m1'' \<and>
           player1 (buildRounds slots ! 0 ! 0) = Some (slots ! 0) \<and>
           player2 (buildRounds slots ! 0 ! 0) = None \<and>
           winner (buildRounds slots ! 0 ! 0) = None"
    by (rule buildRounds_single_slot)
qed

theorem build_rounds_shape_witness:
  "length (buildRounds [alice, bob, carol, dave]) = 2 \<and>
   length (buildRounds [alice, bob, carol, dave] ! 0) = 2 \<and>
   length (buildRounds [alice, bob, carol, dave] ! 1) = 1 \<and>
   player1 (buildRounds [alice, bob, carol, dave] ! 0 ! 1) = Some carol \<and>
   player2 (buildRounds [alice, bob, carol, dave] ! 0 ! 1) = Some dave \<and>
   length (buildRounds [alice]) = 1 \<and>
   player1 (buildRounds [alice] ! 0 ! 0) = Some alice \<and>
   player2 (buildRounds [alice] ! 0 ! 0) = None"
proof -
  have h1: "length [alice, bob, carol, dave] = 2 ^ 2"
    by simp
  have h2: "1 \<le> (2::nat)"
    by simp
  note t = build_rounds_shape[OF h1, THEN conjunct1, rule_format, OF h2]
  note a = t[THEN conjunct1]
  note b = t[THEN conjunct2, THEN conjunct1]
  note d = t[THEN conjunct2, THEN conjunct2, THEN conjunct2]
  have h0: "length [alice] = 2 ^ 0"
    by simp
  note z = build_rounds_shape[OF h0, THEN conjunct2, rule_format, OF refl]
  from a b[rule_format, of 1] b[rule_format, of 2] d[rule_format, of 1] z show ?thesis
    by simp
qed

text \<open>
  Claim C7 at \<open>k = 0\<close>: a slot list of length \<open>2 ^ 0\<close>, the seeding of a single competitor,
  gives one round with one match, not zero rounds, since the first round is always pushed.
\<close>

theorem build_single_slot:
  "length [competitor 1] = 2 ^ 0 \<and> length (buildRounds [competitor 1]) = 1 \<and>
   length (buildRounds [competitor 1] ! 0) = 1"
proof -
  have "roundsLoop 1 2 rs = rs" for rs
    by (subst roundsLoop.simps) simp
  then show ?thesis
    by (simp add: buildRounds_def length_firstRoundLoop)
qed

lemma ceillog2_9: "ceillog2 9 = 4"
  by (rule ceillog2_eqI) simp_all

lemma calculateByes_9: "calculateByes 9 = 7"
  by (simp add: calculateByes_def nextPowerOfTwo_def ceillog2_9)

lemma upt_0_7: "[0..<7] = [0, 1, 2, 3, 4, 5, 6]"
  by (simp add: upt_rec)

lemma halfLoop_upper_nine: "halfLoop bs 3 [c1, c2, c3, c4, c5] 0 [] 0 = ([bs ! 0, c1, c2, c3, c4, bs ! 1, c5], 2)"
  by (simp add: halfLoop.simps)

lemma halfLoop_lower_nine: "halfLoop bs 7 [c6, c7, c8, c9] 0 r 3 = (r @ [bs ! 3, c6, c7, c8, bs ! 4, c9], 5)"
  by (simp add: halfLoop.simps)

lemma seed_nine:
  "playersWithByes [c1, c2, c3, c4, c5, c6, c7, c8, c9] =
     [createBye 0, c1, c2, c3, c4, createBye 1, c5, createBye 2,
      createBye 3, c6, c7, c8, createBye 4, c9, createBye 5, createBye 6]"
proof -
  have n: "length [c1, c2, c3, c4, c5, c6, c7, c8, c9] = 9"
    by simp
  have "playersWithByes [c1, c2, c3, c4, c5, c6, c7, c8, c9] =
      distributeByes [c1, c2, c3, c4, c5, c6, c7, c8, c9] 7"
    by (simp only: playersWithByes_def n calculateByes_9)
  also have "\<dots> = [createBye 0, c1, c2, c3, c4, createBye 1, c5, createBye 2,
      createBye 3, c6, c7, c8, createBye 4, c9, createBye 5, createBye 6]"
    by (simp add: distributeByes_def Let_def upperHalfSize_def upperByes_def
        upt_0_7 halfLoop_upper_nine halfLoop_lower_nine remainingLoop_eq)
  finally show ?thesis .
qed

text \<open>
  Claim C3. The build sets the winner of a first-round match to the competitor that is
  not a bye when one slot is a bye and sets no winner when both slots are byes. The code
  breaks this for nine competitors: the seeding puts two byes in slots 14 and 15, the last
  first-round match \<^verbatim>\<open>r1-m8\<close> pairs them, and the code sets its winner, to the second of
  the two byes. That bye enters \<^verbatim>\<open>r2-m4\<close> against competitor 9, the match has no winner,
  and \<^verbatim>\<open>updateBracketWithWinner\<close> returns the bracket unchanged for it, so competitor 9
  can never advance.
\<close>

theorem build_two_byes_meet:
  "isBye (playersWithByes nine ! 14) \<and> isBye (playersWithByes nine ! 15) \<and>
   player1 (rounds (generateBracket nine) ! 0 ! 7) = Some (playersWithByes nine ! 14) \<and>
   player2 (rounds (generateBracket nine) ! 0 ! 7) = Some (playersWithByes nine ! 15) \<and>
   winner (rounds (generateBracket nine) ! 0 ! 7) = Some (createBye 6) \<and>
   id_match (rounds (generateBracket nine) ! 1 ! 3) = ''r2-m4'' \<and>
   player1 (rounds (generateBracket nine) ! 1 ! 3) = Some (competitor 9) \<and>
   player2 (rounds (generateBracket nine) ! 1 ! 3) = Some (createBye 6) \<and>
   winner (rounds (generateBracket nine) ! 1 ! 3) = None \<and>
   updateBracketWithWinner (generateBracket nine) ''r2-m4'' (id_player (competitor 9)) =
     Inr (generateBracket nine)"
  by code_simp

text \<open>
  Claim C9. For every competitor list none of whose entries is flagged as a bye, the
  entries of the slot list that are flagged are exactly the created byes, in the order of
  their creation, their identifiers are pairwise distinct, the entries that are not flagged
  are the competitors in their input order, and as a multiset the slot list is the input
  plus the byes: no competitor is duplicated and none is dropped.
\<close>

theorem seed_byes_and_competitors:
  assumes "\<forall>p\<in>set ps. \<not> isBye p"
  shows "filter isBye (playersWithByes ps) = map createBye [0..<calculateByes (length ps)] \<and>
         distinct (map id_player (filter isBye (playersWithByes ps))) \<and>
         filter (\<lambda>p. \<not> isBye p) (playersWithByes ps) = ps \<and>
         mset (playersWithByes ps) = mset ps + mset (filter isBye (playersWithByes ps))"
proof -
  have f: "filter isBye (playersWithByes ps) = map createBye [0..<calculateByes (length ps)]"
    unfolding playersWithByes_def by (rule distributeByes_filter(1)[OF assms])
  have g: "filter (\<lambda>p. \<not> isBye p) (playersWithByes ps) = ps"
    unfolding playersWithByes_def by (rule distributeByes_filter(2)[OF assms])
  have d: "distinct (map id_player (filter isBye (playersWithByes ps)))"
    unfolding f by (rule distinct_bye_ids)
  have m: "mset (playersWithByes ps) = mset ps + mset (filter isBye (playersWithByes ps))"
    using distributeByes_mset[of ps "calculateByes (length ps)"] f
    by (simp add: playersWithByes_def)
  from f d g m show ?thesis
    by blast
qed

theorem seed_byes_and_competitors_witness:
  "filter (\<lambda>p. \<not> isBye p) (playersWithByes [competitor 1, competitor 2, competitor 3]) =
     [competitor 1, competitor 2, competitor 3] \<and>
   distinct (map id_player (filter isBye (playersWithByes [competitor 1, competitor 2, competitor 3])))"
proof -
  have h: "\<forall>p\<in>set [competitor 1, competitor 2, competitor 3]. \<not> isBye p"
    by (simp add: competitor_def)
  from seed_byes_and_competitors[OF h] show ?thesis
    by blast
qed

lemma halfLoop_Nil: "halfLoop bs bound [] i r b = (r, b)"
  by (subst halfLoop.simps) simp

lemma firstRoundLoop_Nil: "firstRoundLoop [] i = []"
  by (subst firstRoundLoop.simps) simp

lemma roundsLoop_small: "n < 4 \<Longrightarrow> roundsLoop n 2 rs = rs"
  by (subst roundsLoop.simps) simp

lemma playersWithByes_Nil: "playersWithByes [] = []"
  by (simp add: playersWithByes_def calculateByes_0 distributeByes_def Let_def remainingLoop_eq
      halfLoop_Nil upperByes_def)

lemma buildRounds_Nil: "buildRounds [] = [[]]"
  by (simp add: buildRounds_def firstRoundLoop_Nil roundsLoop_small)

text \<open>
  Claim C5 as stated fails on the empty list: no statement of the seeding or of
  \<^verbatim>\<open>generateBracket\<close> throws, the slot list of no competitor is empty, and the bracket
  returned has one round with no match.
\<close>

theorem seed_empty_returns:
  "playersWithByes [] = [] \<and>
   generateBracket [] = \<lparr>rounds = [[]], status = None, completionPercentage = None, lastSaved = None\<rparr>"
  by (simp add: generateBracket_def playersWithByes_Nil buildRounds_Nil)

text \<open>
  Claim C5, as the code has it. The seeding always returns: for the empty list the empty
  slot list, from which \<^verbatim>\<open>generateBracket\<close> builds a bracket of one empty round, and for
  every non-empty list a non-empty slot list that is at least as long as the input.
\<close>

theorem seed_never_fails:
  "(ps = [] \<longrightarrow> playersWithByes ps = [] \<and> rounds (generateBracket ps) = [[]]) \<and>
   (ps \<noteq> [] \<longrightarrow> playersWithByes ps \<noteq> [] \<and> length ps \<le> length (playersWithByes ps))"
proof (intro conjI impI)
  assume e: "ps = []"
  show "playersWithByes ps = []"
    unfolding e by (rule playersWithByes_Nil)
  show "rounds (generateBracket ps) = [[]]"
    unfolding e by (simp add: generateBracket_def playersWithByes_Nil buildRounds_Nil)
next
  assume n: "ps \<noteq> []"
  have l: "length (playersWithByes ps) = length ps + calculateByes (length ps)"
    by (simp add: playersWithByes_def length_distributeByes)
  with n show "playersWithByes ps \<noteq> []"
    by auto
  from l show "length ps \<le> length (playersWithByes ps)"
    by simp
qed

theorem seed_never_fails_witness:
  "playersWithByes [] = [] \<and> rounds (generateBracket []) = [[]] \<and>
   playersWithByes [competitor 1, competitor 2] \<noteq> []"
  using seed_never_fails[of "[]"] seed_never_fails[of "[competitor 1, competitor 2]"]
  by simp

section \<open>Claims about \<^verbatim>\<open>updateBracketWithWinner\<close>\<close>

lemma findIndex_None: "findIndex P xs = None \<longleftrightarrow> (\<forall>x\<in>set xs. \<not> P x)"
  by (induction xs) (auto split: option.splits)

lemma findIndex_Some:
  "findIndex P xs = Some i \<Longrightarrow> i < length xs \<and> P (xs ! i) \<and> (\<forall>j<i. \<not> P (xs ! j))"
proof (induction xs arbitrary: i)
  case Nil
  then show ?case by simp
next
  case (Cons x xs)
  show ?case
  proof (cases "P x")
    case True
    with Cons.prems show ?thesis by simp
  next
    case False
    with Cons.prems obtain k where k: "findIndex P xs = Some k" and i: "i = Suc k"
      by (auto split: option.splits)
    from Cons.IH[OF k] False show ?thesis
      by (auto simp: i nth_Cons')
  qed
qed


lemma length_setMatch: "length (setMatch rs r i m) = length rs"
  by (simp add: setMatch_def)

lemma length_setMatch_nth: "length (setMatch rs r i m ! q) = length (rs ! q)"
  by (cases "r < length rs") (simp_all add: setMatch_def nth_list_update list_update_beyond)

lemma setMatch_nth:
  "q < length rs \<Longrightarrow> j < length (rs ! q) \<Longrightarrow>
     setMatch rs r i m ! q ! j = (if q = r \<and> j = i then m else rs ! q ! j)"
  by (cases "r < length rs"; cases "q = r")
    (auto simp: setMatch_def nth_list_update list_update_beyond)

lemma update_located:
  assumes "findIndex (hasMatch matchId) (rounds b) = Some ri"
    and "findIndex (\<lambda>m. id_match m = matchId) (rounds b ! ri) = Some mi"
    and "\<not> isByeOpt (player1 (rounds b ! ri ! mi))"
    and "\<not> isByeOpt (player2 (rounds b ! ri ! mi))"
  shows "updateBracketWithWinner b matchId winnerId =
     (let m = rounds b ! ri ! mi;
          w = resolveWinner m winnerId;
          rs1 = setMatch (rounds b) ri mi (m\<lparr>winner := w\<rparr>)
      in if ri + 1 < length (rounds b) then
           (if mi div 2 < length (rounds b ! (ri + 1)) then
              Inr \<lparr>rounds = setMatch rs1 (ri + 1) (mi div 2)
                     ((rounds b ! (ri + 1) ! (mi div 2))
                        \<lparr>player1 := (if mi mod 2 = 0 then w else player1 (rounds b ! (ri + 1) ! (mi div 2))),
                         player2 := (if mi mod 2 = 0 then player2 (rounds b ! (ri + 1) ! (mi div 2)) else w),
                         winner := None\<rparr>),
                   status = None, completionPercentage = None, lastSaved = None\<rparr>
            else Inl TypeError)
         else Inr \<lparr>rounds = rs1, status = None, completionPercentage = None, lastSaved = None\<rparr>)"
proof -
  have lt: "ri < length (rounds b)"
    using findIndex_Some[OF assms(1)] by simp
  have c: "ri < length (rounds b) - Suc 0 \<longleftrightarrow> Suc ri < length (rounds b)"
    by linarith
  have n: "setMatch (rounds b) ri mi x ! Suc ri = rounds b ! Suc ri" for x
    by (simp add: setMatch_def)
  show ?thesis
    using assms
    by (simp add: updateBracketWithWinner_def Let_def length_setMatch c n at_index_def)
qed

text \<open>Without a parent match at that index the read of its property throws.\<close>

lemma update_parent_missing:
  assumes "findIndex (hasMatch matchId) (rounds b) = Some ri"
    and "findIndex (\<lambda>m. id_match m = matchId) (rounds b ! ri) = Some mi"
    and "\<not> isByeOpt (player1 (rounds b ! ri ! mi))"
    and "\<not> isByeOpt (player2 (rounds b ! ri ! mi))"
    and "ri + 1 < length (rounds b)"
    and "\<not> mi div 2 < length (rounds b ! (ri + 1))"
  shows "updateBracketWithWinner b matchId winnerId = Inl TypeError"
  using assms(5,6) by (simp add: update_located[OF assms(1-4)] Let_def)

lemma update_not_found:
  "findIndex (hasMatch matchId) (rounds b) = None \<Longrightarrow>
     updateBracketWithWinner b matchId winnerId = Inr b"
  by (simp add: updateBracketWithWinner_def)

lemma update_bye:
  assumes "findIndex (hasMatch matchId) (rounds b) = Some ri"
    and "findIndex (\<lambda>m. id_match m = matchId) (rounds b ! ri) = Some mi"
    and "isByeOpt (player1 (rounds b ! ri ! mi)) \<or> isByeOpt (player2 (rounds b ! ri ! mi))"
  shows "updateBracketWithWinner b matchId winnerId = Inr b"
  using assms by (auto simp: updateBracketWithWinner_def Let_def)

text \<open>
  The rounds of the example bracket are those reached from the bracket generated for the
  seven competitors 1 to 7 by deciding \<^verbatim>\<open>r1-m1\<close>, \<^verbatim>\<open>r1-m2\<close>, \<^verbatim>\<open>r2-m1\<close> and \<^verbatim>\<open>r3-m1\<close>.
\<close>

lemma exampleBracket_reachable:
  "rounds (projr (updateBracketWithWinner (projr (updateBracketWithWinner
     (projr (updateBracketWithWinner (projr (updateBracketWithWinner
        (generateBracket (map competitor [1..<8]))
        ''r1-m1'' (id_player (competitor 2))))
        ''r1-m2'' (id_player (competitor 3))))
        ''r2-m1'' (id_player (competitor 2))))
        ''r3-m1'' (id_player (competitor 2)))) = rounds exampleBracket"
  by code_simp

text \<open>
  Claim C8. \<^verbatim>\<open>updateBracketWithWinner\<close> returns its input bracket, as a value and not as
  an error, whenever no match of any round has the identifier \<open>matchId\<close>, and also
  whenever the located match has a bye in one of its two slots.
\<close>

theorem update_noop:
  "((\<forall>r\<in>set (rounds b). \<forall>m\<in>set r. id_match m \<noteq> matchId) \<longrightarrow>
      updateBracketWithWinner b matchId winnerId = Inr b) \<and>
   (findIndex (hasMatch matchId) (rounds b) = Some ri \<and>
    findIndex (\<lambda>m. id_match m = matchId) (rounds b ! ri) = Some mi \<and>
    (isByeOpt (player1 (rounds b ! ri ! mi)) \<or> isByeOpt (player2 (rounds b ! ri ! mi))) \<longrightarrow>
      updateBracketWithWinner b matchId winnerId = Inr b)"
proof (intro conjI impI)
  assume "\<forall>r\<in>set (rounds b). \<forall>m\<in>set r. id_match m \<noteq> matchId"
  then have "findIndex (hasMatch matchId) (rounds b) = None"
    by (simp add: findIndex_None hasMatch_def list_ex_iff)
  then show "updateBracketWithWinner b matchId winnerId = Inr b"
    by (rule update_not_found)
next
  assume "findIndex (hasMatch matchId) (rounds b) = Some ri \<and>
    findIndex (\<lambda>m. id_match m = matchId) (rounds b ! ri) = Some mi \<and>
    (isByeOpt (player1 (rounds b ! ri ! mi)) \<or> isByeOpt (player2 (rounds b ! ri ! mi)))"
  then show "updateBracketWithWinner b matchId winnerId = Inr b"
    using update_bye[of matchId b ri mi winnerId] by blast
qed

lemma example_round_r1m3: "findIndex (hasMatch ''r1-m3'') (rounds exampleBracket) = Some 0"
  by (simp add: exampleBracket_def exampleMatch_def hasMatch_def)

lemma example_match_r1m3:
  "findIndex (\<lambda>m. id_match m = ''r1-m3'') (rounds exampleBracket ! 0) = Some 2"
  by (simp add: exampleBracket_def exampleMatch_def)

theorem update_noop_witness:
  "updateBracketWithWinner exampleBracket ''r7-m1'' (id_player (competitor 1)) = Inr exampleBracket \<and>
   updateBracketWithWinner exampleBracket ''r1-m3'' (id_player (competitor 5)) = Inr exampleBracket"
proof -
  have a: "\<forall>r\<in>set (rounds exampleBracket). \<forall>m\<in>set r. id_match m \<noteq> ''r7-m1''"
    by (simp add: exampleBracket_def exampleMatch_def)
  have b: "isByeOpt (player1 (rounds exampleBracket ! 0 ! 2)) \<or>
      isByeOpt (player2 (rounds exampleBracket ! 0 ! 2))"
    by (simp add: exampleBracket_def exampleMatch_def isByeOpt_def createBye_def)
  from a update_noop[of exampleBracket "''r7-m1''" "id_player (competitor 1)"]
  have "updateBracketWithWinner exampleBracket ''r7-m1'' (id_player (competitor 1)) = Inr exampleBracket"
    by blast
  moreover from b example_round_r1m3 example_match_r1m3
    update_noop[of exampleBracket "''r1-m3''" "id_player (competitor 5)" 0 2]
  have "updateBracketWithWinner exampleBracket ''r1-m3'' (id_player (competitor 5)) = Inr exampleBracket"
    by blast
  ultimately show ?thesis
    by blast
qed


lemma setMatch_field:
  assumes "f m = f (rs ! r ! i)" and "q < length rs" and "j < length (rs ! q)"
  shows "f (setMatch rs r i m ! q ! j) = f (rs ! q ! j)"
  using assms by (simp add: setMatch_nth)

text \<open>
  Claim C2. When the located match has no bye and is not in the final round, and the next
  round has a match at index \<open>mi div 2\<close>, the call returns a bracket in which that parent
  match holds the resolved winner in its first slot if \<open>mi\<close> is even and in its second slot
  otherwise, with its other slot kept and its own winner cleared; the located match holds
  the resolved winner; and every other match of every round, the grandparent and all later
  rounds among them, is the match of the input, with any winner it had.
\<close>

theorem winner_propagates_to_parent:
  assumes "findIndex (hasMatch matchId) (rounds b) = Some ri"
    and "findIndex (\<lambda>m. id_match m = matchId) (rounds b ! ri) = Some mi"
    and "\<not> isByeOpt (player1 (rounds b ! ri ! mi))"
    and "\<not> isByeOpt (player2 (rounds b ! ri ! mi))"
    and "ri + 1 < length (rounds b)"
    and "mi div 2 < length (rounds b ! (ri + 1))"
  shows "\<exists>b'. updateBracketWithWinner b matchId winnerId = Inr b' \<and>
           rounds b' ! (ri + 1) ! (mi div 2) =
             (rounds b ! (ri + 1) ! (mi div 2))
               \<lparr>player1 := (if mi mod 2 = 0 then resolveWinner (rounds b ! ri ! mi) winnerId
                             else player1 (rounds b ! (ri + 1) ! (mi div 2))),
                player2 := (if mi mod 2 = 0 then player2 (rounds b ! (ri + 1) ! (mi div 2))
                             else resolveWinner (rounds b ! ri ! mi) winnerId),
                winner := None\<rparr> \<and>
           rounds b' ! ri ! mi =
             (rounds b ! ri ! mi)\<lparr>winner := resolveWinner (rounds b ! ri ! mi) winnerId\<rparr> \<and>
           length (rounds b') = length (rounds b) \<and>
           (\<forall>r j. r < length (rounds b) \<and> j < length (rounds b ! r) \<and>
                  (r, j) \<noteq> (ri, mi) \<and> (r, j) \<noteq> (ri + 1, mi div 2) \<longrightarrow>
                  rounds b' ! r ! j = rounds b ! r ! j)"
proof -
  define w where "w = resolveWinner (rounds b ! ri ! mi) winnerId"
  define rs1 where "rs1 = setMatch (rounds b) ri mi ((rounds b ! ri ! mi)\<lparr>winner := w\<rparr>)"
  define parent where "parent = (rounds b ! (ri + 1) ! (mi div 2))
               \<lparr>player1 := (if mi mod 2 = 0 then w else player1 (rounds b ! (ri + 1) ! (mi div 2))),
                player2 := (if mi mod 2 = 0 then player2 (rounds b ! (ri + 1) ! (mi div 2)) else w),
                winner := None\<rparr>"
  define rs2 where "rs2 = setMatch rs1 (ri + 1) (mi div 2) parent"
  have u: "updateBracketWithWinner b matchId winnerId =
      Inr \<lparr>rounds = rs2, status = None, completionPercentage = None, lastSaved = None\<rparr>"
    using assms(5,6)
    by (simp add: update_located[OF assms(1-4)] Let_def rs2_def rs1_def parent_def w_def)
  have ri: "ri < length (rounds b)" and mi: "mi < length (rounds b ! ri)"
    using findIndex_Some[OF assms(1)] findIndex_Some[OF assms(2)] by simp_all
  have l1: "length rs1 = length (rounds b)" and n1: "length (rs1 ! q) = length (rounds b ! q)" for q
    by (simp_all add: rs1_def length_setMatch length_setMatch_nth)
  have g1: "rs1 ! q ! j = (if q = ri \<and> j = mi then (rounds b ! ri ! mi)\<lparr>winner := w\<rparr> else rounds b ! q ! j)"
    if "q < length (rounds b)" "j < length (rounds b ! q)" for q j
    using that by (simp add: rs1_def setMatch_nth)
  have g2: "rs2 ! q ! j = (if q = ri + 1 \<and> j = mi div 2 then parent else rs1 ! q ! j)"
    if "q < length (rounds b)" "j < length (rounds b ! q)" for q j
    using that by (simp add: rs2_def setMatch_nth l1 n1)
  have p: "rs2 ! (ri + 1) ! (mi div 2) = parent"
    using assms(5,6) by (simp add: g2)
  have m: "rs2 ! ri ! mi = (rounds b ! ri ! mi)\<lparr>winner := w\<rparr>"
    using ri mi by (simp add: g2 g1)
  have l: "length rs2 = length (rounds b)"
    by (simp add: rs2_def length_setMatch l1)
  have o: "rs2 ! r ! j = rounds b ! r ! j"
    if "r < length (rounds b)" "j < length (rounds b ! r)" "(r, j) \<noteq> (ri, mi)"
      "(r, j) \<noteq> (ri + 1, mi div 2)" for r j
    using that by (auto simp: g2 g1)
  show ?thesis
    unfolding u using p m l o
    by (intro exI[of _ "\<lparr>rounds = rs2, status = None, completionPercentage = None, lastSaved = None\<rparr>"])
      (simp add: parent_def w_def)
qed

lemma example_round_r1m1: "findIndex (hasMatch ''r1-m1'') (rounds exampleBracket) = Some 0"
  by (simp add: exampleBracket_def exampleMatch_def hasMatch_def)

lemma example_match_r1m1:
  "findIndex (\<lambda>m. id_match m = ''r1-m1'') (rounds exampleBracket ! 0) = Some 0"
  by (simp add: exampleBracket_def exampleMatch_def)

lemma example_r1m1_no_bye:
  "\<not> isByeOpt (player1 (rounds exampleBracket ! 0 ! 0))"
  "\<not> isByeOpt (player2 (rounds exampleBracket ! 0 ! 0))"
  by (simp_all add: exampleBracket_def exampleMatch_def isByeOpt_def competitor_def)

theorem winner_propagates_to_parent_witness:
  "\<exists>b'. updateBracketWithWinner exampleBracket ''r1-m1'' (id_player (competitor 1)) = Inr b' \<and>
     player1 (rounds b' ! 1 ! 0) = Some (competitor 1) \<and>
     player2 (rounds b' ! 1 ! 0) = Some (competitor 3) \<and>
     winner (rounds b' ! 1 ! 0) = None \<and>
     winner (rounds b' ! 0 ! 0) = Some (competitor 1) \<and>
     winner (rounds b' ! 2 ! 0) = Some (competitor 2)"
proof -
  have h5: "0 + 1 < length (rounds exampleBracket)"
    by (simp add: exampleBracket_def)
  have h6: "0 div 2 < length (rounds exampleBracket ! (0 + 1))"
    by (simp add: exampleBracket_def)
  from winner_propagates_to_parent[OF example_round_r1m1 example_match_r1m1
      example_r1m1_no_bye h5 h6, of "id_player (competitor 1)"]
  obtain b' where
    u: "updateBracketWithWinner exampleBracket ''r1-m1'' (id_player (competitor 1)) = Inr b'" and
    p: "rounds b' ! (0 + 1) ! (0 div 2) =
             (rounds exampleBracket ! (0 + 1) ! (0 div 2))
               \<lparr>player1 := (if (0::nat) mod 2 = 0
                             then resolveWinner (rounds exampleBracket ! 0 ! 0) (id_player (competitor 1))
                             else player1 (rounds exampleBracket ! (0 + 1) ! (0 div 2))),
                player2 := (if (0::nat) mod 2 = 0
                             then player2 (rounds exampleBracket ! (0 + 1) ! (0 div 2))
                             else resolveWinner (rounds exampleBracket ! 0 ! 0) (id_player (competitor 1))),
                winner := None\<rparr>" and
    m: "rounds b' ! 0 ! 0 = (rounds exampleBracket ! 0 ! 0)
          \<lparr>winner := resolveWinner (rounds exampleBracket ! 0 ! 0) (id_player (competitor 1))\<rparr>" and
    o: "\<forall>r j. r < length (rounds exampleBracket) \<and> j < length (rounds exampleBracket ! r) \<and>
                  (r, j) \<noteq> (0, 0) \<and> (r, j) \<noteq> (0 + 1, 0 div 2) \<longrightarrow>
                  rounds b' ! r ! j = rounds exampleBracket ! r ! j"
    by blast
  have w: "resolveWinner (rounds exampleBracket ! 0 ! 0) (id_player (competitor 1)) = Some (competitor 1)"
    by (simp add: resolveWinner_def exampleBracket_def exampleMatch_def)
  from o[rule_format, of 2 0] have g: "rounds b' ! 2 ! 0 = rounds exampleBracket ! 2 ! 0"
    by (simp add: exampleBracket_def)
  from p w have p': "rounds b' ! 1 ! 0 =
      (rounds exampleBracket ! 1 ! 0)\<lparr>player1 := Some (competitor 1), winner := None\<rparr>"
    by simp
  from m w have m': "winner (rounds b' ! 0 ! 0) = Some (competitor 1)"
    by simp
  from p' have "player1 (rounds b' ! 1 ! 0) = Some (competitor 1)"
    and "player2 (rounds b' ! 1 ! 0) = Some (competitor 3)"
    and "winner (rounds b' ! 1 ! 0) = None"
    by (simp_all add: exampleBracket_def exampleMatch_def)
  moreover from g have "winner (rounds b' ! 2 ! 0) = Some (competitor 2)"
    by (simp add: exampleBracket_def exampleMatch_def)
  ultimately show ?thesis
    using u m' by blast
qed

lemma update_sets_winner:
  assumes "findIndex (hasMatch matchId) (rounds b) = Some ri"
    and "findIndex (\<lambda>m. id_match m = matchId) (rounds b ! ri) = Some mi"
    and "\<not> isByeOpt (player1 (rounds b ! ri ! mi))"
    and "\<not> isByeOpt (player2 (rounds b ! ri ! mi))"
    and "ri + 1 < length (rounds b) \<longrightarrow> mi div 2 < length (rounds b ! (ri + 1))"
  shows "\<exists>b'. updateBracketWithWinner b matchId winnerId = Inr b' \<and>
           rounds b' ! ri ! mi =
             (rounds b ! ri ! mi)\<lparr>winner := resolveWinner (rounds b ! ri ! mi) winnerId\<rparr>"
proof -
  have ri: "ri < length (rounds b)" and mi: "mi < length (rounds b ! ri)"
    using findIndex_Some[OF assms(1)] findIndex_Some[OF assms(2)] by simp_all
  show ?thesis
  proof (cases "ri + 1 < length (rounds b)")
    case True
    with assms(5) have "mi div 2 < length (rounds b ! (ri + 1))"
      by simp
    with True ri mi show ?thesis
      by (simp add: update_located[OF assms(1-4)] Let_def setMatch_nth length_setMatch
          length_setMatch_nth)
  next
    case False
    with ri mi show ?thesis
      by (simp add: update_located[OF assms(1-4)] Let_def setMatch_nth)
  qed
qed

text \<open>
  Claim C4, as the code has it. For a located match without a bye (whose parent, if there
  is a next round, exists), when \<open>winnerId\<close> is not the identifier of the first slot, and
  so in particular when it matches neither slot, the call is not rejected and the winner
  of the match becomes the content of its second slot, which is empty only when that slot
  is empty.
\<close>

theorem update_unmatched_winner:
  assumes "findIndex (hasMatch matchId) (rounds b) = Some ri"
    and "findIndex (\<lambda>m. id_match m = matchId) (rounds b ! ri) = Some mi"
    and "\<not> isByeOpt (player1 (rounds b ! ri ! mi))"
    and "\<not> isByeOpt (player2 (rounds b ! ri ! mi))"
    and "ri + 1 < length (rounds b) \<longrightarrow> mi div 2 < length (rounds b ! (ri + 1))"
    and "map_option id_player (player1 (rounds b ! ri ! mi)) \<noteq> Some winnerId"
  shows "\<exists>b'. updateBracketWithWinner b matchId winnerId = Inr b' \<and>
           winner (rounds b' ! ri ! mi) = player2 (rounds b ! ri ! mi)"
proof -
  from update_sets_winner[OF assms(1-5), of winnerId] obtain b' where
    u: "updateBracketWithWinner b matchId winnerId = Inr b'" and
    m: "rounds b' ! ri ! mi =
          (rounds b ! ri ! mi)\<lparr>winner := resolveWinner (rounds b ! ri ! mi) winnerId\<rparr>"
    by blast
  from assms(6) have "resolveWinner (rounds b ! ri ! mi) winnerId = player2 (rounds b ! ri ! mi)"
    unfolding resolveWinner_def by (simp only: if_False)
  with u m show ?thesis
    by simp
qed

lemma example_round_r1m4: "findIndex (hasMatch ''r1-m4'') (rounds exampleBracket) = Some 0"
  by (simp add: exampleBracket_def exampleMatch_def hasMatch_def)

lemma example_match_r1m4:
  "findIndex (\<lambda>m. id_match m = ''r1-m4'') (rounds exampleBracket ! 0) = Some 3"
  by (simp add: exampleBracket_def exampleMatch_def)

lemma example_r1m4_no_bye:
  "\<not> isByeOpt (player1 (rounds exampleBracket ! 0 ! 3))"
  "\<not> isByeOpt (player2 (rounds exampleBracket ! 0 ! 3))"
  by (simp_all add: exampleBracket_def exampleMatch_def isByeOpt_def competitor_def)

lemma example_r1m4_parent:
  "0 + 1 < length (rounds exampleBracket) \<longrightarrow> 3 div 2 < length (rounds exampleBracket ! (0 + 1))"
  by (simp add: exampleBracket_def)

lemma example_r1m4_players:
  "player1 (rounds exampleBracket ! 0 ! 3) = Some (competitor 6)"
  "player2 (rounds exampleBracket ! 0 ! 3) = Some (competitor 7)"
  "winner (rounds exampleBracket ! 0 ! 3) = None"
  by (simp_all add: exampleBracket_def exampleMatch_def)

lemma nobody_ids:
  "id_player (competitor 6) \<noteq> ''nobody''" "id_player (competitor 7) \<noteq> ''nobody''"
  by (simp_all add: competitor_def)

theorem update_unmatched_winner_witness:
  "\<exists>b'. updateBracketWithWinner exampleBracket ''r1-m4'' ''nobody'' = Inr b' \<and>
     winner (rounds b' ! 0 ! 3) = Some (competitor 7)"
proof -
  have h: "map_option id_player (player1 (rounds exampleBracket ! 0 ! 3)) \<noteq> Some ''nobody''"
    using nobody_ids by (simp add: example_r1m4_players)
  from update_unmatched_winner[OF example_round_r1m4 example_match_r1m4 example_r1m4_no_bye
      example_r1m4_parent h]
  show ?thesis
    by (simp add: example_r1m4_players)
qed

text \<open>
  Claim C4 as stated fails: with an identifier that matches neither competitor of the
  undecided match \<^verbatim>\<open>r1-m4\<close>, the winner is not cleared but set to the second competitor.
\<close>

theorem update_unmatched_not_cleared:
  "id_player (competitor 6) \<noteq> ''nobody'' \<and> id_player (competitor 7) \<noteq> ''nobody'' \<and>
   \<not> isl (updateBracketWithWinner exampleBracket ''r1-m4'' ''nobody'') \<and>
   winner (rounds (projr (updateBracketWithWinner exampleBracket ''r1-m4'' ''nobody'')) ! 0 ! 3) =
     Some (competitor 7)"
proof -
  from update_sets_winner[OF example_round_r1m4 example_match_r1m4 example_r1m4_no_bye
      example_r1m4_parent, of "''nobody''"]
  obtain b' where u: "updateBracketWithWinner exampleBracket ''r1-m4'' ''nobody'' = Inr b'"
    and m: "rounds b' ! 0 ! 3 = (rounds exampleBracket ! 0 ! 3)
          \<lparr>winner := resolveWinner (rounds exampleBracket ! 0 ! 3) ''nobody''\<rparr>"
    by blast
  have "resolveWinner (rounds exampleBracket ! 0 ! 3) ''nobody'' = Some (competitor 7)"
    using nobody_ids by (simp add: resolveWinner_def example_r1m4_players)
  with u m nobody_ids show ?thesis
    by simp
qed











text \<open>
  The bracket returned by an update is the object literal \<^verbatim>\<open>{ rounds: newRounds }\<close>: the
  status the input carried is absent from it.
\<close>

lemma update_returns_rounds_only:
  "status (projr (updateBracketWithWinner exampleBracket ''r1-m4'' (id_player (competitor 6)))) = None \<and>
   status exampleBracket = Some in_progress"
proof -
  have len: "Suc 0 < length (rounds exampleBracket)" "Suc 0 < length (rounds exampleBracket ! Suc 0)"
    by (simp_all add: exampleBracket_def)
  have "status (projr (updateBracketWithWinner exampleBracket ''r1-m4'' (id_player (competitor 6)))) = None"
    using len
    by (simp add: update_located[OF example_round_r1m4 example_match_r1m4 example_r1m4_no_bye] Let_def)
  then show ?thesis
    by (simp add: exampleBracket_def)
qed

end
